theory Spec2Isabelle
  imports Complex_Main "HOL-Library.Log_Nat" "HOL-Library.Sublist" "HOL-Library.Monad_Syntax"
begin

section \<open>Strings\<close>

text \<open>
  A Python \<open>str\<close> is a sequence of Unicode code points and \<open>len\<close> counts code points.
  The box glyphs of \<open>moon.py\<close> lie outside ASCII, so a string is modelled as the list of
  its code points.
\<close>

type_synonym ustr = "nat list"

abbreviation ESC :: nat where "ESC \<equiv> 27"
abbreviation LBRACKET :: nat where "LBRACKET \<equiv> 91"
abbreviation SEMI :: nat where "SEMI \<equiv> 59"
abbreviation LOWER_M :: nat where "LOWER_M \<equiv> 109"
abbreviation SPACE :: nat where "SPACE \<equiv> 32"

text \<open>\<open>s * k\<close> on a Python string: \<open>k\<close> copies of \<open>s\<close>, the empty string when \<open>k \<le> 0\<close>.\<close>

definition str_mul :: "ustr \<Rightarrow> int \<Rightarrow> ustr" where
  "str_mul s k = concat (replicate (nat k) s)"

section \<open>Removing escape sequences: \<open>re.sub(r'\033\[[0-9;]*m', '', text)\<close>\<close>

text \<open>The character class \<open>[0-9;]\<close>.\<close>

definition is_param :: "nat \<Rightarrow> bool" where
  "is_param c = ((48 \<le> c \<and> c \<le> 57) \<or> c = SEMI)"

text \<open>
  One attempt of the pattern \<open>\033\[[0-9;]*m\<close> at the head of \<open>s\<close>; on success the rest of
  the string after the match. The star is greedy, and since \<open>m\<close> is not in the class,
  giving characters back cannot make the attempt succeed: the attempt succeeds exactly when
  the longest run of class characters is followed by \<open>m\<close>.
\<close>

definition match_escape :: "ustr \<Rightarrow> ustr option" where
  "match_escape s =
     (case s of
        e # b # rest \<Rightarrow>
          if e = ESC \<and> b = LBRACKET then
            (case dropWhile is_param rest of
               m # rest' \<Rightarrow> if m = LOWER_M then Some rest' else None
             | [] \<Rightarrow> None)
          else None
      | _ \<Rightarrow> None)"

lemma not_param_ESC [simp]: "\<not> is_param ESC"
  by (simp add: is_param_def)

lemma not_param_LOWER_M [simp]: "\<not> is_param LOWER_M"
  by (simp add: is_param_def)

lemma match_escape_shorter: "match_escape s = Some r \<Longrightarrow> length r < length s"
proof -
  assume a: "match_escape s = Some r"
  then obtain e b rest where s: "s = e # b # rest"
    by (auto simp: match_escape_def split: list.splits)
  from a s obtain m where "dropWhile is_param rest = m # r"
    by (auto simp: match_escape_def split: list.splits if_splits)
  then have "length (m # r) \<le> length rest"
    using length_dropWhile_le [of is_param rest] by simp
  with s show ?thesis by simp
qed

text \<open>
  \<open>re.sub\<close> with the empty replacement: scan from the left, and at each position either
  drop the match that starts there and continue behind it, or keep the character and move
  one position on. The pattern never matches the empty string.
\<close>

function strip_ansi :: "ustr \<Rightarrow> ustr" where
  "strip_ansi [] = []"
| "strip_ansi (c # cs) =
     (case match_escape (c # cs) of
        Some rest \<Rightarrow> strip_ansi rest
      | None \<Rightarrow> c # strip_ansi cs)"
  by pat_completeness auto
termination
proof (relation "measure length")
  show "wf (measure length)" by simp
next
  fix c :: nat and cs rest :: ustr
  assume "match_escape (c # cs) = Some rest"
  then show "(rest, c # cs) \<in> measure length"
    using match_escape_shorter [of "c # cs" rest] by simp
next
  fix c :: nat and cs :: ustr
  show "(cs, c # cs) \<in> measure length" by simp
qed

text \<open>The language of the pattern: the strings that are one complete escape sequence.\<close>

definition is_escape :: "ustr \<Rightarrow> bool" where
  "is_escape s =
     (case s of
        e # b # rest \<Rightarrow>
          e = ESC \<and> b = LBRACKET \<and> rest \<noteq> [] \<and> last rest = LOWER_M
            \<and> list_all is_param (butlast rest)
      | _ \<Rightarrow> False)"

text \<open>Whether the pattern matches at some position of the string.\<close>

fun has_escape :: "ustr \<Rightarrow> bool" where
  "has_escape [] = False"
| "has_escape (c # cs) = (match_escape (c # cs) \<noteq> None \<or> has_escape cs)"

section \<open>Python floats\<close>

text \<open>
  \<open>gradient_text\<close> computes each colour channel in Python floats, which are IEEE binary64
  numbers: a significand of 53 bits, normal exponents from \<open>-1022\<close> to \<open>1023\<close>, and below
  \<open>2 ^ -1022\<close> the fixed spacing \<open>2 ^ -1074\<close> of the subnormal numbers. Every operation
  returns the exact result rounded to the nearest such number, ties to the even significand.
  A float is modelled by the rational number it denotes. The sign of a zero is not modelled:
  it cannot be seen through \<open>int()\<close>, the only way a float leaves \<open>gradient_text\<close>.
\<close>

definition pow2 :: "int \<Rightarrow> rat" where
  "pow2 k = (if 0 \<le> k then 2 ^ nat k else 1 / 2 ^ nat (- k))"

text \<open>The integer \<open>e\<close> with \<open>2 ^ e \<le> x < 2 ^ (e + 1)\<close>, for \<open>x > 0\<close>.\<close>

definition ilog2 :: "rat \<Rightarrow> int" where
  "ilog2 x = (if 1 \<le> x then bitlen \<lfloor>x\<rfloor> - 1 else - bitlen (\<lceil>1 / x\<rceil> - 1))"

definition round_half_even :: "rat \<Rightarrow> int" where
  "round_half_even x =
     (let f = \<lfloor>x\<rfloor>; r = x - of_int f
      in if r < 1 / 2 then f
         else if 1 / 2 < r then f + 1
         else if even f then f else f + 1)"

text \<open>The exponent of the unit in the last place of the binary64 numbers around \<open>x\<close>.\<close>

definition ulp_exp :: "rat \<Rightarrow> int" where
  "ulp_exp x = max (ilog2 \<bar>x\<bar>) (- 1022) - 52"

text \<open>Rounding to nearest, ties to even, with no bound on the exponent from above.\<close>

definition round64 :: "rat \<Rightarrow> rat" where
  "round64 x =
     (if x = 0 then 0
      else sgn x * (of_int (round_half_even (\<bar>x\<bar> / pow2 (ulp_exp x))) * pow2 (ulp_exp x)))"

text \<open>
  The result of an operation whose exact value is \<open>x\<close>. \<open>None\<close> stands for a result beyond
  the largest finite float. Python raises OverflowError when an \<open>int\<close> is beyond it, and
  gives an infinity when a product or a sum is; an infinity in \<open>gradient_text\<close> can only
  reach \<open>int()\<close>, which raises OverflowError too. So \<open>None\<close> is always the raise of an
  OverflowError.
\<close>

definition to_float :: "rat \<Rightarrow> rat option" where
  "to_float x = (let y = round64 x in if \<bar>y\<bar> < pow2 1024 then Some y else None)"

text \<open>\<open>int(v)\<close> on a finite float: the integer part, rounded toward zero.\<close>

definition py_int :: "rat \<Rightarrow> int" where
  "py_int v = (if 0 \<le> v then \<lfloor>v\<rfloor> else \<lceil>v\<rceil>)"

section \<open>Formatting\<close>

text \<open>\<open>str\<close> of an \<open>int\<close>, as the f-string \<open>{r}\<close> produces it: decimal digits, \<open>-\<close> in front of a
  negative number.\<close>

fun digits10 :: "nat \<Rightarrow> ustr" where
  "digits10 n = (if n < 10 then [48 + n] else digits10 (n div 10) @ [48 + n mod 10])"

declare digits10.simps [simp del]

definition str_int :: "int \<Rightarrow> ustr" where
  "str_int k = (if k < 0 then 45 # digits10 (nat (- k)) else digits10 (nat k))"

text \<open>\<open>f"\033[38;2;{r};{g};{b}m"\<close> and \<open>"\033[0m"\<close>.\<close>

definition color_set :: "int \<Rightarrow> int \<Rightarrow> int \<Rightarrow> ustr" where
  "color_set r g b =
     [ESC, LBRACKET, 51, 56, SEMI, 50, SEMI] @ str_int r @ [SEMI] @ str_int g @ [SEMI]
       @ str_int b @ [LOWER_M]"

definition reset_seq :: ustr where
  "reset_seq = [ESC, LBRACKET, 48, LOWER_M]"

section \<open>\<open>MoonUI\<close>\<close>

type_synonym color = "int \<times> int \<times> int"

record MoonUI =
  color_start :: color
  color_end :: color
  alt_start :: color
  alt_end :: color

text \<open>\<open>MoonUI.__init__\<close>\<close>

definition MoonUI_init :: MoonUI where
  "MoonUI_init =
     \<lparr>color_start = (80, 130, 255), color_end = (255, 100, 180),
      alt_start = (100, 160, 255), alt_end = (255, 130, 200)\<rparr>"

subsection \<open>\<open>gradient_text\<close>\<close>

text \<open>
  The ratio \<open>t\<close> of position \<open>i\<close> in a text of \<open>length\<close> characters: the literal \<open>0.5\<close>, or the
  true division \<open>i / (length - 1)\<close> of two \<open>int\<close>s, which Python rounds correctly. The model
  is used for \<open>length \<ge> 1\<close> only, as the source returns before the loop otherwise.
\<close>

definition ratio :: "nat \<Rightarrow> nat \<Rightarrow> rat option" where
  "ratio len i =
     (if len = 1 then Some (1 / 2)
      else to_float (of_int (int i) / of_int (int len - 1)))"

text \<open>
  \<open>int(start + (end - start) * t)\<close> for one channel: \<open>end - start\<close> is exact on \<open>int\<close>s, the
  product converts it to a float and rounds, the sum converts \<open>start\<close> and rounds.
\<close>

definition lerp :: "int \<Rightarrow> int \<Rightarrow> rat \<Rightarrow> int option" where
  "lerp s e t =
     do {
       d \<leftarrow> to_float (of_int (e - s));
       p \<leftarrow> to_float (d * t);
       s' \<leftarrow> to_float (of_int s);
       v \<leftarrow> to_float (s' + p);
       Some (py_int v)
     }"

text \<open>The colour of position \<open>i\<close>: the three channels, in the order the source computes them.\<close>

definition position_color :: "color \<Rightarrow> color \<Rightarrow> nat \<Rightarrow> nat \<Rightarrow> color option" where
  "position_color start_color end_color len i =
     (case (start_color, end_color) of
        ((r0, g0, b0), (r1, g1, b1)) \<Rightarrow>
          do {
            t \<leftarrow> ratio len i;
            r \<leftarrow> lerp r0 r1 t;
            g \<leftarrow> lerp g0 g1 t;
            b \<leftarrow> lerp b0 b1 t;
            Some (r, g, b)
          })"

text \<open>The loop \<open>for i, char in enumerate(text)\<close>, from position \<open>i\<close> on.\<close>

fun gradient_loop :: "color \<Rightarrow> color \<Rightarrow> nat \<Rightarrow> nat \<Rightarrow> ustr \<Rightarrow> ustr \<Rightarrow> ustr option" where
  "gradient_loop start_color end_color len i [] result = Some result"
| "gradient_loop start_color end_color len i (ch # rest) result =
     (case position_color start_color end_color len i of
        None \<Rightarrow> None
      | Some (r, g, b) \<Rightarrow>
          gradient_loop start_color end_color len (i + 1) rest
            (result @ color_set r g b @ [ch]))"

definition gradient_text :: "MoonUI \<Rightarrow> ustr \<Rightarrow> bool \<Rightarrow> ustr option" where
  "gradient_text self txt use_alt =
     (let start_color = (if use_alt then alt_start self else color_start self);
          end_color = (if use_alt then alt_end self else color_end self);
          len = length txt
      in if len = 0 then Some []
         else (case gradient_loop start_color end_color len 0 txt [] of
                 None \<Rightarrow> None
               | Some result \<Rightarrow> Some (result @ reset_seq)))"

subsection \<open>The terminal\<close>

text \<open>
  \<open>os.get_terminal_size()\<close> asks the host, so its outcome is an input of the model: the
  column count, or one of the exceptions the call raises (OSError when the descriptor is
  not a terminal, ValueError, AttributeError where the platform has no such call).
\<close>

datatype py_exception = OSError | ValueError | AttributeError

datatype 'a outcome = Returns 'a | Raises py_exception

text \<open>\<open>try: return os.get_terminal_size().columns  except Exception: return 80\<close>; all three
  exceptions are subclasses of \<open>Exception\<close>.\<close>

definition get_term_width :: "int outcome \<Rightarrow> int outcome" where
  "get_term_width query =
     (case query of
        Returns columns \<Rightarrow> Returns columns
      | Raises e \<Rightarrow> Returns 80)"

text \<open>The values \<open>centered_pad\<close> is said to return, and the one it returns.\<close>

datatype py_value = PyInt int | PyStr ustr

definition centered_pad :: "int outcome \<Rightarrow> int \<Rightarrow> py_value outcome" where
  "centered_pad query box_width =
     (case get_term_width query of
        Raises e \<Rightarrow> Raises e
      | Returns tw \<Rightarrow> Returns (PyStr (str_mul [SPACE] (max ((tw - box_width) div 2) 0))))"

subsection \<open>Boxes\<close>

definition box_line :: "MoonUI \<Rightarrow> ustr \<Rightarrow> ustr \<Rightarrow> ustr \<Rightarrow> int \<Rightarrow> ustr option" where
  "box_line self left fill right width =
     gradient_text self (left @ str_mul fill (width - 2) @ right) False"

definition box_top :: "MoonUI \<Rightarrow> int \<Rightarrow> ustr option" where
  "box_top self w = box_line self [9484] [9472] [9488] w"

definition box_mid :: "MoonUI \<Rightarrow> int \<Rightarrow> ustr option" where
  "box_mid self w = box_line self [9500] [9472] [9508] w"

definition box_bot :: "MoonUI \<Rightarrow> int \<Rightarrow> ustr option" where
  "box_bot self w = box_line self [9492] [9472] [9496] w"

definition box_row :: "MoonUI \<Rightarrow> ustr \<Rightarrow> int \<Rightarrow> string \<Rightarrow> ustr option" where
  "box_row self txt w align =
     (let clean = strip_ansi txt;
          inner = w - 2;
          (pad_left, pad_right) =
            (if align = ''center'' then
               (let pad_left = (inner - int (length clean)) div 2
                in (pad_left, inner - int (length clean) - pad_left))
             else (1, inner - int (length clean) - 1));
          pad_left = max pad_left 0;
          pad_right = max pad_right 0;
          full_line = [9474] @ str_mul [SPACE] pad_left @ clean @ str_mul [SPACE] pad_right @ [9474]
      in gradient_text self full_line False)"

definition box_empty :: "MoonUI \<Rightarrow> int \<Rightarrow> ustr option" where
  "box_empty self w = box_row self [] w ''center''"

section \<open>Notions used to state the properties\<close>

text \<open>A colour as the data model has it: three integers from 0 to 255.\<close>

definition valid_color :: "color \<Rightarrow> bool" where
  "valid_color c = (case c of (r, g, b) \<Rightarrow>
     0 \<le> r \<and> r \<le> 255 \<and> 0 \<le> g \<and> g \<le> 255 \<and> 0 \<le> b \<and> b \<le> 255)"

definition valid_ui :: "MoonUI \<Rightarrow> bool" where
  "valid_ui self =
     (valid_color (color_start self) \<and> valid_color (color_end self)
        \<and> valid_color (alt_start self) \<and> valid_color (alt_end self))"

text \<open>A rendered line without its reset: each character behind the sequence that sets its
  colour.\<close>

fun colored :: "color list \<Rightarrow> ustr \<Rightarrow> ustr" where
  "colored ((r, g, b) # cols) (ch # rest) = color_set r g b @ ch # colored cols rest"
| "colored _ _ = []"


text \<open>
  The channel value in closed form: the ratio, and the integer part of the twice rounded
  interpolation. \<open>float_channel\<close> rounds where the floats of the source round;
  \<open>exact_channel\<close> is the same formula over the rationals, with no rounding but the
  final floor.
\<close>

definition float_ratio :: "nat \<Rightarrow> nat \<Rightarrow> rat" where
  "float_ratio n i = (if n = 1 then 1 / 2 else round64 (of_int (int i) / of_int (int n - 1)))"

definition float_channel :: "int \<Rightarrow> int \<Rightarrow> rat \<Rightarrow> int" where
  "float_channel s e t = \<lfloor>round64 (of_int s + round64 (of_int (e - s) * t))\<rfloor>"

definition float_color :: "color \<Rightarrow> color \<Rightarrow> nat \<Rightarrow> nat \<Rightarrow> color" where
  "float_color start_color end_color n i =
     (case (start_color, end_color) of
        ((r0, g0, b0), (r1, g1, b1)) \<Rightarrow>
          (float_channel r0 r1 (float_ratio n i), float_channel g0 g1 (float_ratio n i),
           float_channel b0 b1 (float_ratio n i)))"

definition exact_ratio :: "nat \<Rightarrow> nat \<Rightarrow> rat" where
  "exact_ratio n i = (if n = 1 then 1 / 2 else of_int (int i) / of_int (int n - 1))"

definition exact_channel :: "int \<Rightarrow> int \<Rightarrow> rat \<Rightarrow> int" where
  "exact_channel s e t = \<lfloor>of_int s + of_int (e - s) * t\<rfloor>"

definition exact_color :: "color \<Rightarrow> color \<Rightarrow> nat \<Rightarrow> nat \<Rightarrow> color" where
  "exact_color start_color end_color n i =
     (case (start_color, end_color) of
        ((r0, g0, b0), (r1, g1, b1)) \<Rightarrow>
          (exact_channel r0 r1 (exact_ratio n i), exact_channel g0 g1 (exact_ratio n i),
           exact_channel b0 b1 (exact_ratio n i)))"

text \<open>The colours of the \<open>n\<close> positions of a text, for the gradient that \<open>use_alt\<close> selects.\<close>

definition gradient_colors :: "MoonUI \<Rightarrow> bool \<Rightarrow> nat \<Rightarrow> color list" where
  "gradient_colors self use_alt n =
     map (float_color (if use_alt then alt_start self else color_start self)
            (if use_alt then alt_end self else color_end self) n) [0..<n]"

text \<open>The number of characters of a returned line that are left when its escape sequences
  are removed.\<close>

definition visible_width :: "ustr option \<Rightarrow> int option" where
  "visible_width out = map_option (\<lambda>s. int (length (strip_ansi s))) out"

section \<open>Properties of the scanner\<close>

lemma is_escape_decomp:
  "is_escape s \<longleftrightarrow> (\<exists>ps. s = ESC # LBRACKET # ps @ [LOWER_M] \<and> (\<forall>c\<in>set ps. is_param c))"
proof
  assume a: "is_escape s"
  then obtain rest where s: "s = ESC # LBRACKET # rest" and r: "rest \<noteq> []"
    and l: "last rest = LOWER_M" and p: "list_all is_param (butlast rest)"
    by (auto simp: is_escape_def split: list.splits)
  from r l have "rest = butlast rest @ [LOWER_M]"
    using append_butlast_last_id [of rest] by simp
  with s p show "\<exists>ps. s = ESC # LBRACKET # ps @ [LOWER_M] \<and> (\<forall>c\<in>set ps. is_param c)"
    by (metis list_all_iff)
next
  assume "\<exists>ps. s = ESC # LBRACKET # ps @ [LOWER_M] \<and> (\<forall>c\<in>set ps. is_param c)"
  then show "is_escape s"
    by (auto simp: is_escape_def list_all_iff)
qed

lemma match_escape_complete:
  assumes "is_escape s"
  shows "match_escape (s @ v) = Some v"
proof -
  from assms obtain ps where s: "s = ESC # LBRACKET # ps @ [LOWER_M]"
    and p: "\<forall>c\<in>set ps. is_param c"
    using is_escape_decomp by blast
  have "dropWhile is_param (ps @ LOWER_M # v) = dropWhile is_param (LOWER_M # v)"
    using p by (simp add: dropWhile_append2)
  also have "\<dots> = LOWER_M # v"
    by simp
  finally show ?thesis
    using s by (simp add: match_escape_def)
qed

lemma match_escape_sound:
  assumes "match_escape s = Some r"
  shows "\<exists>p. is_escape p \<and> s = p @ r"
proof -
  from assms obtain rest where s: "s = ESC # LBRACKET # rest"
    by (auto simp: match_escape_def split: list.splits if_splits)
  with assms have d: "dropWhile is_param rest = LOWER_M # r"
    by (auto simp: match_escape_def split: list.splits if_splits)
  have "rest = takeWhile is_param rest @ LOWER_M # r"
    using takeWhile_dropWhile_id [of is_param rest] d by simp
  then have "s = (ESC # LBRACKET # takeWhile is_param rest @ [LOWER_M]) @ r"
    using s by simp
  moreover have "is_escape (ESC # LBRACKET # takeWhile is_param rest @ [LOWER_M])"
    unfolding is_escape_decomp using set_takeWhileD by fastforce
  ultimately show ?thesis by blast
qed

text \<open>
  An attempt that starts before an ESC cannot run across it: an escape sequence holds no
  ESC but its first character.
\<close>

lemma match_escape_before_ESC:
  assumes "u \<noteq> []"
  shows "match_escape (u @ ESC # w) = map_option (\<lambda>r. r @ ESC # w) (match_escape u)"
proof (cases u)
  case Nil
  with assms show ?thesis by simp
next
  case (Cons e u')
  show ?thesis
  proof (cases u')
    case Nil
    with Cons show ?thesis by (simp add: match_escape_def)
  next
    case (Cons b rest)
    note u = \<open>u = e # u'\<close> Cons
    show ?thesis
    proof (cases "\<forall>x\<in>set rest. is_param x")
      case True
      then have a: "dropWhile is_param (rest @ ESC # w) = ESC # w"
        by (simp add: dropWhile_append2)
      from True have b: "dropWhile is_param rest = []"
        by simp
      show ?thesis
        unfolding u by (simp add: match_escape_def a b)
    next
      case False
      then have a: "dropWhile is_param (rest @ ESC # w) = dropWhile is_param rest @ ESC # w"
        by (simp add: dropWhile_append)
      from False obtain m r where b: "dropWhile is_param rest = m # r"
        by (cases "dropWhile is_param rest") auto
      show ?thesis
        unfolding u by (simp add: match_escape_def a b)
    qed
  qed
qed

lemma strip_ansi_split_at_ESC:
  "strip_ansi (u @ ESC # w) = strip_ansi u @ strip_ansi (ESC # w)"
proof (induction u rule: strip_ansi.induct)
  case 1
  show ?case by simp
next
  case (2 c cs)
  show ?case
  proof (cases "match_escape (c # cs)")
    case None
    then have "match_escape ((c # cs) @ ESC # w) = None"
      using match_escape_before_ESC [of "c # cs" w] by simp
    then have "strip_ansi ((c # cs) @ ESC # w) = c # strip_ansi (cs @ ESC # w)"
      by simp
    with None "2.IH" show ?thesis by simp
  next
    case (Some rest)
    then have "match_escape ((c # cs) @ ESC # w) = Some (rest @ ESC # w)"
      using match_escape_before_ESC [of "c # cs" w] by simp
    then have "strip_ansi ((c # cs) @ ESC # w) = strip_ansi (rest @ ESC # w)"
      by simp
    with Some "2.IH" show ?thesis by simp
  qed
qed

lemma strip_ansi_remove:
  assumes "is_escape s"
  shows "strip_ansi (u @ s @ v) = strip_ansi u @ strip_ansi v"
proof -
  from assms obtain s' where s: "s = ESC # s'"
    using is_escape_decomp by blast
  have "strip_ansi (s @ v) = strip_ansi v"
    using match_escape_complete [OF assms, of v] s by simp
  moreover have "strip_ansi (u @ s @ v) = strip_ansi u @ strip_ansi (s @ v)"
    using strip_ansi_split_at_ESC [of u "s' @ v"] s by simp
  ultimately show ?thesis by simp
qed

lemma strip_ansi_no_escape: "\<not> has_escape x \<Longrightarrow> strip_ansi x = x"
  by (induction x) auto

lemma strip_ansi_no_ESC: "ESC \<notin> set x \<Longrightarrow> strip_ansi x = x"
proof (induction x)
  case Nil
  show ?case by simp
next
  case (Cons c cs)
  then have "match_escape (c # cs) = None"
    by (auto simp: match_escape_def split: list.splits)
  with Cons show ?case by simp
qed

lemma has_escape_iff:
  "has_escape x \<longleftrightarrow> (\<exists>u s v. x = u @ s @ v \<and> is_escape s)"
proof
  show "has_escape x \<Longrightarrow> \<exists>u s v. x = u @ s @ v \<and> is_escape s"
  proof (induction x)
    case Nil
    then show ?case by simp
  next
    case (Cons c cs)
    show ?case
    proof (cases "match_escape (c # cs)")
      case (Some r)
      then obtain p where "is_escape p" "c # cs = p @ r"
        using match_escape_sound by blast
      then have "c # cs = [] @ p @ r \<and> is_escape p" by simp
      then show ?thesis by blast
    next
      case None
      with Cons.prems have "has_escape cs" by simp
      then obtain u s v where "cs = u @ s @ v" "is_escape s"
        using Cons.IH by blast
      then have "c # cs = (c # u) @ s @ v \<and> is_escape s" by simp
      then show ?thesis by blast
    qed
  qed
next
  assume "\<exists>u s v. x = u @ s @ v \<and> is_escape s"
  then obtain u s v where x: "x = u @ s @ v" and s: "is_escape s" by blast
  from s obtain c cs where c: "s @ v = c # cs"
    by (cases s) (auto simp: is_escape_def)
  have "has_escape (s @ v)"
    using match_escape_complete [OF s, of v] c by simp
  then have "has_escape (u @ s @ v)"
    by (induction u) auto
  with x show "has_escape x" by simp
qed

lemma strip_ansi_subseq: "subseq (strip_ansi x) x"
proof (induction x rule: strip_ansi.induct)
  case 1
  show ?case by simp
next
  case (2 c cs)
  show ?case
  proof (cases "match_escape (c # cs)")
    case None
    with "2.IH" show ?thesis by simp
  next
    case (Some rest)
    then obtain p where "c # cs = p @ rest"
      using match_escape_sound by blast
    moreover have "subseq (strip_ansi rest) rest"
      using Some "2.IH" by simp
    ultimately have "subseq (strip_ansi rest) (c # cs)"
      by (metis list_emb_append2)
    with Some show ?thesis by simp
  qed
qed

lemma strip_ansi_length_le: "length (strip_ansi x) \<le> length x"
  using strip_ansi_subseq [of x] by (rule list_emb_length)

lemma strip_ansi_shorter:
  "has_escape x \<Longrightarrow> length (strip_ansi x) < length x"
proof (induction x rule: strip_ansi.induct)
  case 1
  then show ?case by simp
next
  case (2 c cs)
  show ?case
  proof (cases "match_escape (c # cs)")
    case None
    with "2.prems" have "has_escape cs" by simp
    with None "2.IH" show ?thesis by simp
  next
    case (Some rest)
    have "length (strip_ansi rest) \<le> length rest"
      by (rule strip_ansi_length_le)
    also have "\<dots> < length (c # cs)"
      using Some by (rule match_escape_shorter)
    finally show ?thesis using Some by simp
  qed
qed

lemma strip_ansi_fixpoint_iff: "strip_ansi y = y \<longleftrightarrow> \<not> has_escape y"
proof
  assume "strip_ansi y = y"
  then show "\<not> has_escape y"
    using strip_ansi_shorter [of y] by auto
next
  assume "\<not> has_escape y"
  then show "strip_ansi y = y" by (rule strip_ansi_no_escape)
qed

section \<open>Properties of the rounding\<close>

lemma pow2_powi: "pow2 k = 2 powi k"
  by (simp add: pow2_def power_int_def inverse_eq_divide power_one_over)

lemma pow2_pos [simp]: "0 < pow2 k"
  by (simp add: pow2_powi)

lemma pow2_add: "pow2 (a + b) = pow2 a * pow2 b"
  by (simp add: pow2_powi power_int_add)

lemma pow2_minus: "pow2 (- a) = 1 / pow2 a"
  by (simp add: pow2_powi power_int_minus inverse_eq_divide)

lemma pow2_nat: "pow2 (int n) = 2 ^ n"
  by (simp add: pow2_def)

lemma pow2_mono: "a \<le> b \<Longrightarrow> pow2 a \<le> pow2 b"
  by (simp add: pow2_powi power_int_increasing)

lemma pow2_strict_mono: "a < b \<Longrightarrow> pow2 a < pow2 b"
  by (simp add: pow2_powi power_int_strict_increasing)

lemma pow2_less_cancel: "pow2 a < pow2 b \<Longrightarrow> a < b"
  using pow2_mono [of b a] by (cases "a < b") auto

lemma pow2_le_cancel: "pow2 a \<le> pow2 b \<Longrightarrow> a \<le> b"
  using pow2_strict_mono [of b a] by (cases "a \<le> b") auto

lemma ilog2_bounds:
  assumes "0 < x"
  shows "pow2 (ilog2 x) \<le> x" and "x < pow2 (ilog2 x + 1)"
proof -
  have "pow2 (ilog2 x) \<le> x \<and> x < pow2 (ilog2 x + 1)"
  proof (cases "1 \<le> x")
    case True
    define n where "n = \<lfloor>x\<rfloor>"
    define b where "b = bitlen n"
    have n: "0 < n" using True by (simp add: n_def)
    have b: "1 \<le> b" using n by (simp add: b_def bitlen_alt_def)
    have bb: "2 ^ nat (b - 1) \<le> n" "n < 2 ^ nat b"
      using bitlen_bounds [OF n] by (simp_all add: b_def)
    have "pow2 (b - 1) = of_int (2 ^ nat (b - 1))"
      using b by (simp add: pow2_def)
    also have "\<dots> \<le> of_int n" using bb(1) by (simp only: of_int_le_iff)
    also have "\<dots> \<le> x" by (simp add: n_def)
    finally have lo: "pow2 (b - 1) \<le> x" .
    have "x < of_int (n + 1)" using floor_correct [of x] by (simp add: n_def)
    also have "\<dots> \<le> of_int (2 ^ nat b)" using bb(2) by (simp only: of_int_le_iff)
    also have "\<dots> = pow2 b" using b by (simp add: pow2_def)
    finally have hi: "x < pow2 b" .
    have "ilog2 x = b - 1" using True by (simp add: ilog2_def b_def n_def)
    with lo hi show ?thesis by simp
  next
    case False
    define y where "y = 1 / x"
    define m where "m = \<lceil>y\<rceil> - 1"
    define b where "b = bitlen m"
    have y: "1 < y" using False assms by (simp add: y_def)
    have m: "0 < m" using y by (simp add: m_def) 
    have b: "1 \<le> b" using m by (simp add: b_def bitlen_alt_def)
    have bb: "2 ^ nat (b - 1) \<le> m" "m < 2 ^ nat b"
      using bitlen_bounds [OF m] by (simp_all add: b_def)
    have my: "of_int m < y" by (simp add: m_def) linarith
    have ym: "y \<le> of_int (m + 1)" by (simp add: m_def)
    have x: "x = 1 / y" by (simp add: y_def)
    have "y \<le> of_int (2 ^ nat b)"
      using ym bb(2) by (smt (verit) of_int_le_iff zless_imp_add1_zle order_trans)
    also have "\<dots> = pow2 b" using b by (simp add: pow2_def)
    finally have "1 / pow2 b \<le> 1 / y"
      using y by (simp add: frac_le)
    then have lo: "pow2 (- b) \<le> x" by (simp add: pow2_minus x)
    have "pow2 (b - 1) = of_int (2 ^ nat (b - 1))"
      using b by (simp add: pow2_def)
    also have "\<dots> \<le> of_int m" using bb(1) by (simp only: of_int_le_iff)
    also have "\<dots> < y" by (rule my)
    finally have "1 / y < 1 / pow2 (b - 1)"
      by (simp add: frac_less2)
    then have hi: "x < pow2 (- b + 1)"
      using pow2_minus [of "b - 1"] by (simp add: x)
    have "ilog2 x = - b" using False by (simp add: ilog2_def b_def m_def y_def)
    with lo hi show ?thesis by simp
  qed
  then show "pow2 (ilog2 x) \<le> x" and "x < pow2 (ilog2 x + 1)" by simp_all
qed

lemma ilog2_unique:
  assumes "pow2 e \<le> x" "x < pow2 (e + 1)"
  shows "ilog2 x = e"
proof -
  have x: "0 < x" using assms(1) pow2_pos [of e] by linarith
  have "pow2 (ilog2 x) < pow2 (e + 1)"
    using ilog2_bounds(1) [OF x] assms(2) by linarith
  then have "ilog2 x < e + 1" by (rule pow2_less_cancel)
  moreover have "pow2 e < pow2 (ilog2 x + 1)"
    using ilog2_bounds(2) [OF x] assms(1) by linarith
  then have "e < ilog2 x + 1" by (rule pow2_less_cancel)
  ultimately show ?thesis by simp
qed

lemma ilog2_mono:
  assumes "0 < x" "x \<le> y"
  shows "ilog2 x \<le> ilog2 y"
proof -
  have y: "0 < y" using assms by simp
  have "pow2 (ilog2 x) < pow2 (ilog2 y + 1)"
    using ilog2_bounds(1) [OF assms(1)] ilog2_bounds(2) [OF y] assms(2) by linarith
  then have "ilog2 x < ilog2 y + 1" by (rule pow2_less_cancel)
  then show ?thesis by simp
qed

lemma pow2_nonneg [simp]: "0 \<le> pow2 k"
  using pow2_pos [of k] by (simp only: less_imp_le)

lemma pow2_neq_0 [simp]: "pow2 k \<noteq> 0"
  by (metis pow2_pos less_irrefl)

lemma pow2_53: "pow2 53 = of_int (2 ^ 53)"
  by (simp add: pow2_def)

lemma pow2_52: "pow2 52 = of_int (2 ^ 52)"
  by (simp add: pow2_def)

lemma round_half_even_of_int [simp]: "round_half_even (of_int k) = k"
  by (simp add: round_half_even_def)

lemma round_half_even_mono:
  assumes "x \<le> y"
  shows "round_half_even x \<le> round_half_even y"
proof (cases "\<lfloor>x\<rfloor> = \<lfloor>y\<rfloor>")
  case True
  with assms show ?thesis
    by (auto simp: round_half_even_def Let_def)
next
  case False
  with assms have "\<lfloor>x\<rfloor> + 1 \<le> \<lfloor>y\<rfloor>"
    using floor_mono [of x y] by linarith
  moreover have "round_half_even x \<le> \<lfloor>x\<rfloor> + 1"
    by (simp add: round_half_even_def Let_def)
  moreover have "\<lfloor>y\<rfloor> \<le> round_half_even y"
    by (simp add: round_half_even_def Let_def)
  ultimately show ?thesis by linarith
qed

lemma round64_pos:
  assumes "0 < x"
  shows "round64 x = of_int (round_half_even (x / pow2 (ulp_exp x))) * pow2 (ulp_exp x)"
  using assms by (simp add: round64_def)

lemma round64_minus: "round64 (- x) = - round64 x"
  by (simp add: round64_def ulp_exp_def)

lemma round64_nonneg:
  assumes "0 \<le> x"
  shows "0 \<le> round64 x"
proof (cases "x = 0")
  case True
  then show ?thesis by (simp add: round64_def)
next
  case False
  with assms have x: "0 < x" by simp
  have "0 \<le> x / pow2 (ulp_exp x)" using x by (intro divide_nonneg_nonneg) simp_all
  then have "round_half_even 0 \<le> round_half_even (x / pow2 (ulp_exp x))"
    by (rule round_half_even_mono)
  then have "0 \<le> round_half_even (x / pow2 (ulp_exp x))"
    using round_half_even_of_int [of 0] by simp
  then show ?thesis
    using x by (simp add: round64_pos)
qed

lemma below_next_binade:
  assumes "0 < x"
  shows "x < pow2 (ulp_exp x + 53)"
proof -
  have "x < pow2 (ilog2 x + 1)" using assms by (rule ilog2_bounds)
  also have "\<dots> \<le> pow2 (ulp_exp x + 53)"
    using assms by (intro pow2_mono) (simp add: ulp_exp_def)
  finally show ?thesis .
qed

lemma round64_upper:
  assumes "0 < x"
  shows "round64 x \<le> pow2 (ulp_exp x + 53)"
proof -
  let ?u = "pow2 (ulp_exp x)"
  have "x / ?u < pow2 (ulp_exp x + 53) / ?u"
    using below_next_binade [OF assms] by (simp add: divide_strict_right_mono)
  also have "\<dots> = pow2 53" by (simp add: pow2_add)
  also have "\<dots> = of_int (2 ^ 53)" by (rule pow2_53)
  finally have "round_half_even (x / ?u) \<le> round_half_even (of_int (2 ^ 53))"
    by (intro round_half_even_mono) simp
  then have "round_half_even (x / ?u) \<le> 2 ^ 53"
    by (simp only: round_half_even_of_int)
  then have "of_int (round_half_even (x / ?u)) \<le> (of_int (2 ^ 53) :: rat)"
    by (simp only: of_int_le_iff)
  then have "of_int (round_half_even (x / ?u)) * ?u \<le> of_int (2 ^ 53) * ?u"
    by (intro mult_right_mono) simp_all
  also have "\<dots> = pow2 (ulp_exp x + 53)"
    by (simp only: pow2_53 [symmetric] pow2_add mult.commute)
  finally show ?thesis
    using assms by (simp only: round64_pos)
qed

lemma round64_lower:
  assumes "0 < y" and "- 1022 \<le> ilog2 y"
  shows "pow2 (ulp_exp y + 52) \<le> round64 y"
proof -
  let ?u = "pow2 (ulp_exp y)"
  have e: "ulp_exp y + 52 = ilog2 y" using assms by (simp add: ulp_exp_def)
  have "pow2 (ulp_exp y + 52) \<le> y"
    using ilog2_bounds(1) [OF assms(1)] e by simp
  then have "pow2 (ulp_exp y + 52) / ?u \<le> y / ?u"
    by (simp add: divide_right_mono)
  moreover have "pow2 (ulp_exp y + 52) / ?u = of_int (2 ^ 52)"
    by (simp add: pow2_add pow2_52)
  ultimately have "round_half_even (of_int (2 ^ 52)) \<le> round_half_even (y / ?u)"
    by (intro round_half_even_mono) simp
  then have "2 ^ 52 \<le> round_half_even (y / ?u)"
    by (simp only: round_half_even_of_int)
  then have "(of_int (2 ^ 52) :: rat) \<le> of_int (round_half_even (y / ?u))"
    by (simp only: of_int_le_iff)
  then have "of_int (2 ^ 52) * ?u \<le> of_int (round_half_even (y / ?u)) * ?u"
    by (intro mult_right_mono) simp_all
  moreover have "of_int (2 ^ 52) * ?u = pow2 (ulp_exp y + 52)"
    by (simp only: pow2_52 [symmetric] pow2_add mult.commute)
  ultimately show ?thesis
    using assms by (simp only: round64_pos)
qed

lemma round64_mono_pos:
  assumes "0 < x" "x \<le> y"
  shows "round64 x \<le> round64 y"
proof -
  have y: "0 < y" using assms by simp
  have le: "ulp_exp x \<le> ulp_exp y"
    using ilog2_mono [OF assms] assms(1) y by (simp add: ulp_exp_def)
  show ?thesis
  proof (cases "ulp_exp x = ulp_exp y")
    case True
    have "x / pow2 (ulp_exp y) \<le> y / pow2 (ulp_exp y)"
      using assms(2) by (simp add: divide_right_mono)
    then have "round_half_even (x / pow2 (ulp_exp y)) \<le> round_half_even (y / pow2 (ulp_exp y))"
      by (rule round_half_even_mono)
    then show ?thesis
      using assms(1) y True by (simp add: round64_pos)
  next
    case False
    with le have lt: "ulp_exp x + 1 \<le> ulp_exp y" by simp
    then have n: "- 1022 \<le> ilog2 y"
      using assms(1) y by (simp add: ulp_exp_def max_def split: if_splits)
    have "round64 x \<le> pow2 (ulp_exp x + 53)"
      using assms(1) by (rule round64_upper)
    also have "\<dots> \<le> pow2 (ulp_exp y + 52)"
      using lt by (intro pow2_mono) simp
    also have "\<dots> \<le> round64 y"
      using y n by (rule round64_lower)
    finally show ?thesis .
  qed
qed

lemma round64_mono:
  assumes "x \<le> y"
  shows "round64 x \<le> round64 y"
proof -
  consider "0 < x" | "x \<le> 0" "0 \<le> y" | "y < 0" by linarith
  then show ?thesis
  proof cases
    case 1
    then show ?thesis using assms by (rule round64_mono_pos)
  next
    case 2
    have "round64 x \<le> 0"
      using round64_nonneg [of "- x"] 2(1) by (simp add: round64_minus)
    also have "0 \<le> round64 y"
      using 2(2) by (rule round64_nonneg)
    finally show ?thesis .
  next
    case 3
    have "round64 (- y) \<le> round64 (- x)"
      using 3 assms by (intro round64_mono_pos) simp_all
    then show ?thesis by (simp add: round64_minus)
  qed
qed

lemma round64_exact_pos:
  assumes "0 < k" "k < 2 ^ 53" "- 1074 \<le> j"
  shows "round64 (of_int k * pow2 j) = of_int k * pow2 j"
proof -
  let ?r = "of_int k * pow2 j :: rat"
  have r: "0 < ?r" using assms(1) by simp
  have "(of_int k :: rat) < of_int (2 ^ 53)"
    using assms(2) by (simp only: of_int_less_iff)
  then have "?r < of_int (2 ^ 53) * pow2 j"
    by (intro mult_strict_right_mono) simp_all
  then have "?r < pow2 (53 + j)"
    by (simp only: pow2_53 [symmetric] pow2_add)
  then have "pow2 (ilog2 ?r) < pow2 (53 + j)"
    using ilog2_bounds(1) [OF r] by (rule le_less_trans [rotated])
  then have "ilog2 ?r < 53 + j" by (rule pow2_less_cancel)
  moreover have "\<bar>?r\<bar> = ?r"
    using r by (simp only: abs_of_pos)
  ultimately have ue: "ulp_exp ?r \<le> j"
    using assms(3) by (simp add: ulp_exp_def)
  define e where "e = ulp_exp ?r"
  define n where "n = nat (j - e)"
  have j: "j = e + int n" using ue by (simp add: n_def e_def)
  have pj: "pow2 j = pow2 e * 2 ^ n"
    using pow2_add [of e "int n"] j by (simp add: pow2_nat)
  have "pow2 j / pow2 e = 2 ^ n"
    by (simp add: pj)
  then have "of_int k * (pow2 j / pow2 e) = (of_int (k * 2 ^ n) :: rat)"
    by simp
  then have q: "?r / pow2 e = of_int (k * 2 ^ n)"
    by simp
  have "round64 ?r = of_int (round_half_even (?r / pow2 e)) * pow2 e"
    using r unfolding e_def by (rule round64_pos)
  also have "\<dots> = of_int (k * 2 ^ n) * pow2 e"
    by (simp only: q round_half_even_of_int)
  also have "\<dots> = of_int k * (pow2 e * 2 ^ n)"
    by simp
  also have "\<dots> = ?r"
    by (simp only: pj)
  finally show ?thesis .
qed

lemma round64_exact:
  assumes "\<bar>k\<bar> < 2 ^ 53" "- 1074 \<le> j"
  shows "round64 (of_int k * pow2 j) = of_int k * pow2 j"
proof -
  consider "0 < k" | "k = 0" | "k < 0" by linarith
  then show ?thesis
  proof cases
    case 1
    then show ?thesis using assms by (intro round64_exact_pos) simp_all
  next
    case 2
    then show ?thesis by (simp add: round64_def)
  next
    case 3
    then have "round64 (of_int (- k) * pow2 j) = of_int (- k) * pow2 j"
      using assms by (intro round64_exact_pos) simp_all
    then show ?thesis
      using round64_minus [of "of_int k * pow2 j"] by simp
  qed
qed

lemma round64_of_int:
  assumes "\<bar>k\<bar> < 2 ^ 53"
  shows "round64 (of_int k) = of_int k"
  using round64_exact [OF assms, of 0] by (simp add: pow2_def)

lemma pow2_1024_large: "of_int (2 ^ 53) < pow2 1024"
  using pow2_strict_mono [of 53 1024] by (simp only: pow2_53)

section \<open>Properties of the rendered line\<close>

lemma digits10_digits: "c \<in> set (digits10 n) \<Longrightarrow> 48 \<le> c \<and> c \<le> 57"
proof (induction n rule: digits10.induct)
  case (1 n)
  show ?case
  proof (cases "n < 10")
    case True
    with "1.prems" show ?thesis by (simp add: digits10.simps [of n])
  next
    case False
    with "1.prems" have "c \<in> set (digits10 (n div 10)) \<or> c = 48 + n mod 10"
      by (auto simp: digits10.simps [of n])
    then show ?thesis
    proof
      assume "c \<in> set (digits10 (n div 10))"
      with False "1.IH" show ?thesis by simp
    next
      assume "c = 48 + n mod 10"
      moreover have "n mod 10 < 10" by simp
      ultimately show ?thesis by linarith
    qed
  qed
qed

lemma str_int_params:
  assumes "0 \<le> k" "c \<in> set (str_int k)"
  shows "is_param c"
  using assms digits10_digits [of c "nat k"] by (simp add: str_int_def is_param_def)

lemma is_escape_color_set:
  assumes "0 \<le> r" "0 \<le> g" "0 \<le> b"
  shows "is_escape (color_set r g b)"
proof -
  let ?ps = "[51, 56, SEMI, 50, SEMI] @ str_int r @ [SEMI] @ str_int g @ [SEMI] @ str_int b"
  have "color_set r g b = ESC # LBRACKET # ?ps @ [LOWER_M]"
    by (simp add: color_set_def)
  moreover have "\<forall>c\<in>set ?ps. is_param c"
    using assms str_int_params by (auto simp: is_param_def)
  ultimately show ?thesis
    unfolding is_escape_decomp by blast
qed

lemma is_escape_valid_color:
  "valid_color (r, g, b) \<Longrightarrow> is_escape (color_set r g b)"
  by (simp add: valid_color_def is_escape_color_set)

lemma is_escape_reset_seq: "is_escape reset_seq"
  by (simp add: is_escape_def reset_seq_def is_param_def)

lemma colored_starts_with_ESC:
  "\<exists>w. colored cols rest @ reset_seq = ESC # w"
proof (cases "colored cols rest")
  case Nil
  then show ?thesis by (simp add: reset_seq_def)
next
  case (Cons a list)
  then have "a = ESC"
    by (induction cols rest rule: colored.induct) (auto simp: color_set_def)
  with Cons show ?thesis by simp
qed

lemma match_escape_char_ESC: "match_escape (ch # ESC # w) = None"
  by (simp add: match_escape_def)

lemma strip_ansi_colored:
  assumes "list_all valid_color cols" "length cols = length line"
  shows "strip_ansi (colored cols line @ reset_seq) = line"
  using assms
proof (induction cols line rule: list_induct2')
  case 1
  show ?case
    using match_escape_complete [OF is_escape_reset_seq, of "[]"]
    by (simp add: reset_seq_def)
next
  case (4 c cols ch rest)
  obtain r g b where c: "c = (r, g, b)" by (cases c)
  obtain w where w: "colored cols rest @ reset_seq = ESC # w"
    using colored_starts_with_ESC by blast
  have e: "is_escape (color_set r g b)"
    using 4(2) c by (simp add: is_escape_valid_color)
  have "strip_ansi (colored (c # cols) (ch # rest) @ reset_seq)
      = strip_ansi ([] @ color_set r g b @ (ch # colored cols rest @ reset_seq))"
    by (simp add: c)
  also have "\<dots> = strip_ansi (ch # colored cols rest @ reset_seq)"
    by (simp only: strip_ansi_remove [OF e]) simp
  also have "\<dots> = ch # strip_ansi (colored cols rest @ reset_seq)"
    by (simp add: w match_escape_char_ESC)
  also have "\<dots> = ch # rest"
    using 4 by simp
  finally show ?case .
qed simp_all



lemma gradient_loop_those:
  "gradient_loop sc ec len i line result =
     map_option (\<lambda>cols. result @ colored cols line)
       (those (map (position_color sc ec len) [i..<i + length line]))"
proof (induction line arbitrary: i result)
  case Nil
  show ?case by simp
next
  case (Cons ch rest)
  have u: "[i..<i + length (ch # rest)] = i # [Suc i..<Suc i + length rest]"
    using upt_rec [of i "i + Suc (length rest)"] by simp
  show ?case
    unfolding u
    by (cases "position_color sc ec len i")
      (auto simp: Cons.IH [of "Suc i"] option.map_comp comp_def split: option.splits)
qed

section \<open>Properties of the colour computation\<close>

lemma to_float_between:
  assumes "of_int a \<le> x" "x \<le> of_int b" "\<bar>a\<bar> < 2 ^ 53" "\<bar>b\<bar> < 2 ^ 53"
  shows "to_float x = Some (round64 x)" and "of_int a \<le> round64 x" and "round64 x \<le> of_int b"
proof -
  show lo: "of_int a \<le> round64 x"
    using round64_mono [OF assms(1)] round64_of_int [OF assms(3)] by simp
  show hi: "round64 x \<le> of_int b"
    using round64_mono [OF assms(2)] round64_of_int [OF assms(4)] by simp
  have "(of_int (- (2 ^ 53)) :: rat) < of_int a"
    using assms(3) by (simp only: of_int_less_iff)
  with lo have l: "- of_int (2 ^ 53) < round64 x" by simp
  have "(of_int b :: rat) < of_int (2 ^ 53)"
    using assms(4) by (simp only: of_int_less_iff)
  with hi have h: "round64 x < of_int (2 ^ 53)" by simp
  from l h have "\<bar>round64 x\<bar> < pow2 1024"
    using pow2_1024_large by (simp add: abs_less_iff)
  then show "to_float x = Some (round64 x)"
    by (simp add: to_float_def)
qed

lemma to_float_of_int:
  assumes "\<bar>k\<bar> < 2 ^ 53"
  shows "to_float (of_int k) = Some (of_int k)"
  using to_float_between(1) [of k "of_int k" k] round64_of_int [OF assms] assms by simp

lemma ratio_unit:
  assumes "i < len"
  shows "ratio len i = Some (float_ratio len i)"
    and "0 \<le> float_ratio len i" and "float_ratio len i \<le> 1"
proof -
  have "ratio len i = Some (float_ratio len i) \<and> 0 \<le> float_ratio len i \<and> float_ratio len i \<le> 1"
  proof (cases "len = 1")
    case True
    then show ?thesis by (simp add: ratio_def float_ratio_def)
  next
    case False
    with assms have len: "2 \<le> len" by simp
    let ?x = "of_int (int i) / of_int (int len - 1) :: rat"
    have "of_int 0 \<le> ?x" using len by simp
    moreover have "?x \<le> of_int 1" using assms len by simp
    ultimately have "to_float ?x = Some (round64 ?x)" "of_int 0 \<le> round64 ?x"
      "round64 ?x \<le> of_int 1"
      by (rule to_float_between; simp)+
    with False show ?thesis by (simp add: ratio_def float_ratio_def)
  qed
  then show "ratio len i = Some (float_ratio len i)"
    and "0 \<le> float_ratio len i" and "float_ratio len i \<le> 1" by simp_all
qed

lemma lerp_bounds:
  assumes "0 \<le> s" "s \<le> 255" "0 \<le> e" "e \<le> 255" "0 \<le> t" "t \<le> 1"
  shows "lerp s e t = Some (float_channel s e t)"
    and "min s e \<le> float_channel s e t" and "float_channel s e t \<le> max s e"
proof -
  define d where "d = e - s"
  have d: "\<bar>d\<bar> < 2 ^ 53" "\<bar>s\<bar> < 2 ^ 53" using assms by (simp_all add: d_def)
  have fd: "to_float (of_int d) = Some (of_int d)" using d(1) by (rule to_float_of_int)
  have fs: "to_float (of_int s) = Some (of_int s)" using d(2) by (rule to_float_of_int)
  have dt: "of_int (min 0 d) \<le> of_int d * t \<and> of_int d * t \<le> of_int (max 0 d)"
  proof (cases "0 \<le> d")
    case True
    then have "0 \<le> of_int d * t" "of_int d * t \<le> of_int d * 1"
      using assms(5,6) mult_left_mono [of t 1 "of_int d"] by simp_all
    with True show ?thesis by simp
  next
    case False
    then have "of_int d * 1 \<le> of_int d * t" "of_int d * t \<le> 0"
      using assms(5,6) mult_left_mono_neg [of t 1 "of_int d"]
      by (simp_all add: mult_nonpos_nonneg)
    with False show ?thesis by simp
  qed
  have md: "\<bar>min 0 d\<bar> < 2 ^ 53" "\<bar>max 0 d\<bar> < 2 ^ 53"
    using d(1) by simp_all
  define p where "p = round64 (of_int d * t)"
  have p: "to_float (of_int d * t) = Some p" "of_int (min 0 d) \<le> p" "p \<le> of_int (max 0 d)"
    unfolding p_def using dt md by (blast intro: to_float_between)+
  have sp: "of_int (min s e) \<le> of_int s + p" "of_int s + p \<le> of_int (max s e)"
    using p(2,3) by (simp_all add: d_def min_def max_def split: if_splits)
  have ms: "\<bar>min s e\<bar> < 2 ^ 53" "\<bar>max s e\<bar> < 2 ^ 53"
    using assms by simp_all
  define v where "v = round64 (of_int s + p)"
  have v: "to_float (of_int s + p) = Some v" "of_int (min s e) \<le> v" "v \<le> of_int (max s e)"
    unfolding v_def using sp ms by (blast intro: to_float_between)+
  have fc: "float_channel s e t = \<lfloor>v\<rfloor>"
    by (simp only: float_channel_def v_def p_def d_def)
  have "0 \<le> min s e" using assms by simp
  then have "(0 :: rat) \<le> of_int (min s e)" by (simp only: of_int_0_le_iff)
  then have v0: "0 \<le> v" using v(2) by (rule order_trans)
  then have pv: "py_int v = \<lfloor>v\<rfloor>" by (simp add: py_int_def)
  show "lerp s e t = Some (float_channel s e t)"
    by (simp add: lerp_def d_def [symmetric] fd fs p(1) v(1) pv fc)
  show "min s e \<le> float_channel s e t"
    using v(2) by (simp only: fc le_floor_iff)
  show "float_channel s e t \<le> max s e"
    using v(3) floor_mono [of v "of_int (max s e)"] by (simp add: fc)
qed

lemma position_color_valid:
  assumes "valid_color sc" "valid_color ec" "i < len"
  shows "position_color sc ec len i = Some (float_color sc ec len i)"
    and "valid_color (float_color sc ec len i)"
proof -
  obtain r0 g0 b0 where sc: "sc = (r0, g0, b0)" by (cases sc)
  obtain r1 g1 b1 where ec: "ec = (r1, g1, b1)" by (cases ec)
  note t = ratio_unit [OF assms(3)]
  have v: "0 \<le> r0" "r0 \<le> 255" "0 \<le> g0" "g0 \<le> 255" "0 \<le> b0" "b0 \<le> 255"
    "0 \<le> r1" "r1 \<le> 255" "0 \<le> g1" "g1 \<le> 255" "0 \<le> b1" "b1 \<le> 255"
    using assms(1,2) by (simp_all add: valid_color_def sc ec)
  note r = lerp_bounds [OF v(1,2,7,8) t(2,3)]
  note g = lerp_bounds [OF v(3,4,9,10) t(2,3)]
  note b = lerp_bounds [OF v(5,6,11,12) t(2,3)]
  show "position_color sc ec len i = Some (float_color sc ec len i)"
    by (simp add: position_color_def float_color_def sc ec t(1) r(1) g(1) b(1))
  show "valid_color (float_color sc ec len i)"
    using v r(2,3) g(2,3) b(2,3) unfolding valid_color_def float_color_def sc ec
    by simp arith
qed

lemma those_map_Some:
  assumes "\<And>i. i \<in> set xs \<Longrightarrow> f i = Some (g i)"
  shows "those (map f xs) = Some (map g xs)"
  using assms by (induction xs) simp_all

lemma gradient_loop_value:
  assumes "valid_color sc" "valid_color ec" "i + length line \<le> len"
  shows "gradient_loop sc ec len i line result
           = Some (result @ colored (map (float_color sc ec len) [i..<i + length line]) line)"
proof -
  have "those (map (position_color sc ec len) [i..<i + length line])
          = Some (map (float_color sc ec len) [i..<i + length line])"
    using assms by (intro those_map_Some position_color_valid(1)) simp_all
  then show ?thesis
    by (simp add: gradient_loop_those)
qed

lemma float_channel_half:
  assumes "0 \<le> s" "s \<le> 255" "0 \<le> e" "e \<le> 255"
  shows "float_channel s e (1 / 2) = exact_channel s e (1 / 2)"
proof -
  have "round64 (of_int (e - s) * pow2 (- 1)) = of_int (e - s) * pow2 (- 1)"
    using assms by (intro round64_exact) simp_all
  moreover have h: "pow2 (- 1) = 1 / 2" by (simp add: pow2_def)
  ultimately have p: "round64 (of_int (e - s) * (1 / 2)) = of_int (e - s) * (1 / 2)"
    by (simp only:)
  have "round64 (of_int (s + e) * pow2 (- 1)) = of_int (s + e) * pow2 (- 1)"
    using assms by (intro round64_exact) simp_all
  moreover have "of_int (s + e) * pow2 (- 1) = (of_int s + of_int (e - s) * (1 / 2) :: rat)"
    by (simp add: h field_simps)
  ultimately have "round64 (of_int s + of_int (e - s) * (1 / 2))
      = of_int s + of_int (e - s) * (1 / 2)"
    by (simp only:)
  then show ?thesis
    by (simp only: float_channel_def exact_channel_def p)
qed

lemma float_color_single:
  assumes "valid_color sc" "valid_color ec"
  shows "float_color sc ec 1 i = exact_color sc ec 1 i"
proof -
  obtain r0 g0 b0 where sc: "sc = (r0, g0, b0)" by (cases sc)
  obtain r1 g1 b1 where ec: "ec = (r1, g1, b1)" by (cases ec)
  have v: "0 \<le> r0" "r0 \<le> 255" "0 \<le> g0" "g0 \<le> 255" "0 \<le> b0" "b0 \<le> 255"
    "0 \<le> r1" "r1 \<le> 255" "0 \<le> g1" "g1 \<le> 255" "0 \<le> b1" "b1 \<le> 255"
    using assms(1,2) by (simp_all add: valid_color_def sc ec)
  show ?thesis
    by (simp add: float_color_def exact_color_def sc ec float_ratio_def exact_ratio_def
        float_channel_half [OF v(1,2,7,8)] float_channel_half [OF v(3,4,9,10)]
        float_channel_half [OF v(5,6,11,12)])
qed

section \<open>Properties of \<open>gradient_text\<close>\<close>

lemma gradient_colors_valid:
  assumes "valid_ui self"
  shows "length (gradient_colors self use_alt n) = n"
    and "list_all valid_color (gradient_colors self use_alt n)"
  using assms
  by (simp_all add: gradient_colors_def valid_ui_def list_all_iff position_color_valid(2))

lemma gradient_text_empty: "gradient_text self [] use_alt = Some []"
  by (simp add: gradient_text_def)

lemma gradient_text_value:
  assumes "valid_ui self" "line \<noteq> []"
  shows "gradient_text self line use_alt
           = Some (colored (gradient_colors self use_alt (length line)) line @ reset_seq)"
proof -
  let ?sc = "if use_alt then alt_start self else color_start self"
  let ?ec = "if use_alt then alt_end self else color_end self"
  have "valid_color ?sc" "valid_color ?ec"
    using assms(1) by (simp_all add: valid_ui_def)
  then have "gradient_loop ?sc ?ec (length line) 0 line []
      = Some ([] @ colored (map (float_color ?sc ?ec (length line)) [0..<0 + length line]) line)"
    by (intro gradient_loop_value) simp_all
  then show ?thesis
    using assms(2) by (simp add: gradient_text_def gradient_colors_def Let_def)
qed

lemma gradient_text_strip:
  assumes "valid_ui self"
  shows "map_option strip_ansi (gradient_text self line use_alt) = Some line"
proof (cases "line = []")
  case True
  then show ?thesis by (simp add: gradient_text_empty)
next
  case False
  then show ?thesis
    using gradient_colors_valid [OF assms, of use_alt "length line"]
    by (simp add: gradient_text_value [OF assms False] strip_ansi_colored)
qed

lemma str_mul_single: "str_mul [c] k = replicate (nat k) c"
  by (induction "nat k" arbitrary: k) (simp_all add: str_mul_def replicate_append_same)

lemma valid_ui_init: "valid_ui MoonUI_init"
  by (simp add: valid_ui_def MoonUI_init_def valid_color_def)

section \<open>Rounding at given numbers\<close>

lemma round_half_even_near:
  assumes "of_int m - 1 / 2 < x" "x < of_int m + 1 / 2"
  shows "round_half_even x = m"
proof (cases "x < of_int m")
  case True
  then have f: "\<lfloor>x\<rfloor> = m - 1"
    using assms(1) by (intro floor_unique) simp_all
  have "1 / 2 < x - of_int (m - 1)" using assms(1) by simp
  then show ?thesis
    by (simp add: round_half_even_def f)
next
  case False
  then have f: "\<lfloor>x\<rfloor> = m"
    using assms(2) by (intro floor_unique) simp_all
  have "x - of_int m < 1 / 2" using assms(2) by simp
  then show ?thesis
    by (simp add: round_half_even_def f)
qed

lemma round64_eqI:
  assumes "pow2 e \<le> x" "x < pow2 (e + 1)" "- 1022 \<le> e"
    and "of_int m - 1 / 2 < x / pow2 (e - 52)" "x / pow2 (e - 52) < of_int m + 1 / 2"
  shows "round64 x = of_int m * pow2 (e - 52)"
proof -
  have x: "0 < x" using assms(1) pow2_pos [of e] by (rule less_le_trans [rotated])
  have "ilog2 x = e" using assms(1,2) by (rule ilog2_unique)
  then have u: "ulp_exp x = e - 52"
    using x assms(3) by (simp add: ulp_exp_def)
  have "round_half_even (x / pow2 (e - 52)) = m"
    using assms(4,5) by (rule round_half_even_near)
  then show ?thesis
    by (simp only: round64_pos [OF x] u)
qed

lemma pow2_m1: "pow2 (- 1) = 1 / 2" by (simp add: pow2_def)
lemma pow2_0: "pow2 0 = 1" by (simp add: pow2_def)
lemma pow2_m53: "pow2 (- 53) = 1 / 9007199254740992" by (simp add: pow2_def)
lemma pow2_m47: "pow2 (- 47) = 1 / 140737488355328" by (simp add: pow2_def)
lemma pow2_5: "pow2 5 = 32" by (simp add: pow2_def)
lemma pow2_6: "pow2 6 = 64" by (simp add: pow2_def)

lemma float_ratio_11_7: "float_ratio 11 7 = 6305039478318694 / 9007199254740992"
proof -
  have "round64 (7 / 10) = of_int 6305039478318694 * pow2 (- 1 - 52)"
    by (rule round64_eqI) (simp_all add: pow2_m1 pow2_0 pow2_m53)
  then show ?thesis
    by (simp add: float_ratio_def pow2_m53)
qed

lemma float_channel_0_90: "float_channel 0 90 (float_ratio 11 7) = 62"
proof -
  let ?t = "6305039478318694 / 9007199254740992 :: rat"
  have "round64 (90 * ?t) = of_int 8866461766385663 * pow2 (5 - 52)"
    by (rule round64_eqI) (simp_all add: pow2_5 pow2_6 pow2_m47)
  then have p: "round64 (90 * ?t) = of_int 8866461766385663 * pow2 (- 47)"
    by simp
  have q: "round64 (of_int 8866461766385663 * pow2 (- 47)) = of_int 8866461766385663 * pow2 (- 47)"
    by (rule round64_exact) simp_all
  have "float_channel 0 90 ?t = \<lfloor>round64 (of_int 0 + round64 (of_int (90 - 0) * ?t))\<rfloor>"
    by (simp only: float_channel_def)
  also have "\<dots> = \<lfloor>round64 (round64 (90 * ?t))\<rfloor>"
    by simp
  also have "\<dots> = \<lfloor>of_int 8866461766385663 * pow2 (- 47) :: rat\<rfloor>"
    by (simp only: p q)
  also have "\<dots> = 62"
    by (rule floor_unique) (simp_all add: pow2_m47)
  finally show ?thesis
    by (simp only: float_ratio_11_7)
qed

lemma gradient_colors_nth:
  "i < n \<Longrightarrow> gradient_colors self use_alt n ! i
     = float_color (if use_alt then alt_start self else color_start self)
         (if use_alt then alt_end self else color_end self) n i"
  by (simp add: gradient_colors_def)

lemma float_color_0_90: "float_color (0, 0, 0) (90, 90, 90) 11 7 = (62, 62, 62)"
  by (simp add: float_color_def float_channel_0_90)

lemma exact_color_0_90: "exact_color (0, 0, 0) (90, 90, 90) 11 7 = (63, 63, 63)"
  by (simp add: exact_color_def exact_channel_def exact_ratio_def)

lemma exact_color_X: "exact_color (10, 20, 30) (90, 80, 70) 1 0 = (50, 50, 50)"
  by (simp add: exact_color_def exact_channel_def exact_ratio_def)

lemma valid_ui_0_90:
  "valid_ui \<lparr>color_start = (0, 0, 0), color_end = (90, 90, 90),
            alt_start = (0, 0, 0), alt_end = (90, 90, 90)\<rparr>"
  by (simp add: valid_ui_def valid_color_def)

lemma valid_ui_X:
  "valid_ui \<lparr>color_start = (10, 20, 30), color_end = (90, 80, 70),
            alt_start = (10, 20, 30), alt_end = (90, 80, 70)\<rparr>"
  by (simp add: valid_ui_def valid_color_def)

section \<open>Properties of the boxes\<close>

lemma visible_width_gradient_text:
  assumes "valid_ui self"
  shows "visible_width (gradient_text self line use_alt) = Some (int (length line))"
proof -
  obtain out where "gradient_text self line use_alt = Some out" "strip_ansi out = line"
    using gradient_text_strip [OF assms, of line use_alt] by auto
  then show ?thesis by (simp add: visible_width_def)
qed

lemma box_line_fill:
  "box_line self [l] [f] [r] w
     = gradient_text self ([l] @ replicate (nat (max (w - 2) 0)) f @ [r]) False"
  by (simp add: box_line_def str_mul_single max_def)

lemma box_row_center:
  "box_row self t w ''center''
     = gradient_text self
         ([9474]
          @ replicate (nat (max ((w - 2 - int (length (strip_ansi t))) div 2) 0)) SPACE
          @ strip_ansi t
          @ replicate (nat (max (w - 2 - int (length (strip_ansi t))
              - (w - 2 - int (length (strip_ansi t))) div 2) 0)) SPACE
          @ [9474]) False"
  by (simp add: box_row_def Let_def str_mul_single)

lemma box_row_left:
  assumes "align \<noteq> ''center''"
  shows "box_row self t w align
     = gradient_text self
         ([9474] @ replicate (nat (max 1 0)) SPACE @ strip_ansi t
          @ replicate (nat (max (w - 2 - int (length (strip_ansi t)) - 1) 0)) SPACE
          @ [9474]) False"
  using assms by (simp add: box_row_def Let_def str_mul_single)

section \<open>The scanner: claims C3 and C7\<close>

text \<open>
  Claim C7. The scanner removes every complete escape sequence of its input: wherever the
  input holds a string \<open>s\<close> of the pattern, the output is the output for what stands before
  \<open>s\<close> followed by the output for what stands behind it. Every other character stays, in
  the original order: the output is a subsequence of the input, and an input in which the
  pattern occurs nowhere is returned unchanged. An ESC that starts no complete sequence is
  kept, and the scan goes on with the character behind it.
\<close>

theorem strip_ansi_removes_complete_sequences:
  "(is_escape s \<longrightarrow> strip_ansi (u @ s @ v) = strip_ansi u @ strip_ansi v)
   \<and> ((\<nexists>p q r. x = p @ q @ r \<and> is_escape q) \<longrightarrow> strip_ansi x = x)
   \<and> subseq (strip_ansi x) x
   \<and> (match_escape (ESC # w) = None \<longrightarrow>
        strip_ansi (u @ ESC # w) = strip_ansi u @ ESC # strip_ansi w)"
  using strip_ansi_remove [of s u v] strip_ansi_no_escape [of x] has_escape_iff [of x]
    strip_ansi_subseq [of x] strip_ansi_split_at_ESC [of u w]
  by auto

theorem strip_ansi_removes_complete_sequences_witness:
  "is_escape [27, 91, 51, 49, 109]
   \<and> strip_ansi ([65] @ [27, 91, 51, 49, 109] @ [66]) = [65, 66]
   \<and> (\<nexists>p q r. [65, 27, 91, 51, 49] = p @ q @ r \<and> is_escape q)
   \<and> strip_ansi [65, 27, 91, 51, 49] = [65, 27, 91, 51, 49]
   \<and> match_escape (ESC # [91, 51, 49]) = None
   \<and> strip_ansi ([65] @ ESC # [91, 51, 49]) = [65, 27, 91, 51, 49]"
proof -
  have e: "is_escape [27, 91, 51, 49, 109]"
    by (simp add: is_escape_def is_param_def)
  have n: "\<nexists>p q r. [65, 27, 91, 51, 49] = p @ q @ r \<and> is_escape q"
    unfolding has_escape_iff [symmetric] by (simp add: match_escape_def is_param_def)
  have m: "match_escape (ESC # [91, 51, 49]) = None"
    by (simp add: match_escape_def is_param_def)
  show ?thesis
    using strip_ansi_removes_complete_sequences
      [of "[27, 91, 51, 49, 109]" "[65]" "[66]" "[65, 27, 91, 51, 49]" "[91, 51, 49]"] e n m
    by (simp add: match_escape_def is_param_def)
qed

text \<open>
  Claim C3, as stated: stripping twice is the same as stripping once, for every string.
  It fails where removing a sequence joins the text before it and the text behind it into
  a new sequence: for \<open>ESC [ ESC [ 0 m m\<close> the first pass removes the inner \<open>ESC [ 0 m\<close> and
  returns \<open>ESC [ m\<close>, which the second pass removes.
\<close>

theorem strip_ansi_idempotent_counterexample:
  "strip_ansi (strip_ansi [27, 91, 27, 91, 48, 109, 109])
     \<noteq> strip_ansi [27, 91, 27, 91, 48, 109, 109]
   \<and> strip_ansi [27, 91, 27, 91, 48, 109, 109] = [27, 91, 109]
   \<and> strip_ansi (strip_ansi [27, 91, 27, 91, 48, 109, 109]) = []"
  by (simp add: match_escape_def is_param_def)

text \<open>
  Claim C3, amended: stripping twice is the same as stripping once exactly for the strings
  whose stripped form holds no complete escape sequence. So it holds for every string
  but those in which removing a sequence joins the text around it into a new one; a lone
  or unterminated ESC does no harm.
\<close>

theorem strip_ansi_idempotent_iff:
  "strip_ansi (strip_ansi x) = strip_ansi x
     \<longleftrightarrow> (\<nexists>p q r. strip_ansi x = p @ q @ r \<and> is_escape q)"
  using strip_ansi_fixpoint_iff [of "strip_ansi x"] has_escape_iff [of "strip_ansi x"]
  by (simp only:)

theorem strip_ansi_idempotent_iff_witness:
  "(\<nexists>p q r. strip_ansi [65, 27, 91, 51, 49] = p @ q @ r \<and> is_escape q)
   \<and> strip_ansi (strip_ansi [65, 27, 91, 51, 49]) = strip_ansi [65, 27, 91, 51, 49]
   \<and> (\<nexists>p q r. strip_ansi [27] = p @ q @ r \<and> is_escape q)
   \<and> strip_ansi (strip_ansi [27]) = strip_ansi [27]
   \<and> (\<exists>p q r. strip_ansi [27, 91, 27, 91, 48, 109, 109] = p @ q @ r \<and> is_escape q)
   \<and> strip_ansi (strip_ansi [27, 91, 27, 91, 48, 109, 109])
       \<noteq> strip_ansi [27, 91, 27, 91, 48, 109, 109]"
proof -
  have a: "\<nexists>p q r. strip_ansi [65, 27, 91, 51, 49] = p @ q @ r \<and> is_escape q"
    unfolding has_escape_iff [symmetric] by (simp add: match_escape_def is_param_def)
  have b: "\<nexists>p q r. strip_ansi [27] = p @ q @ r \<and> is_escape q"
    unfolding has_escape_iff [symmetric] by (simp add: match_escape_def is_param_def)
  have c: "\<exists>p q r. strip_ansi [27, 91, 27, 91, 48, 109, 109] = p @ q @ r \<and> is_escape q"
    unfolding has_escape_iff [symmetric] by (simp add: match_escape_def is_param_def)
  note ta = strip_ansi_idempotent_iff [of "[65, 27, 91, 51, 49]", THEN iffD2, OF a]
  note tb = strip_ansi_idempotent_iff [of "[27]", THEN iffD2, OF b]
  have tc: "strip_ansi (strip_ansi [27, 91, 27, 91, 48, 109, 109])
       \<noteq> strip_ansi [27, 91, 27, 91, 48, 109, 109]"
    using strip_ansi_idempotent_iff [of "[27, 91, 27, 91, 48, 109, 109]"] c by blast
  from a ta b tb c tc show ?thesis
    by (intro conjI)
qed

section \<open>\<open>gradient_text\<close>: claims C1 and C4\<close>



text \<open>
  Claim C4, as stated: each channel is the floor of the exact value
  \<open>start + (end - start) * i / (n - 1)\<close>. The source computes the ratio, the product and the
  sum in floats, each rounded to the nearest binary64 number, and truncates the last. In a
  text of 11 characters, from 0 to 90, position 7 has the exact value \<open>0 + 90 * 7 / 10 = 63\<close>,
  but the ratio rounds to a float just below \<open>7 / 10\<close>, the product to the float just below
  63, and the channel is 62.
\<close>

theorem gradient_text_exact_floor_counterexample:
  "position_color (0, 0, 0) (90, 90, 90) 11 7 = Some (62, 62, 62)
   \<and> exact_color (0, 0, 0) (90, 90, 90) 11 7 = (63, 63, 63)
   \<and> gradient_text \<lparr>color_start = (0, 0, 0), color_end = (90, 90, 90),
                     alt_start = (0, 0, 0), alt_end = (90, 90, 90)\<rparr>
         [65, 65, 65, 65, 65, 65, 65, 65, 65, 65, 65] False
       = Some (colored (gradient_colors \<lparr>color_start = (0, 0, 0), color_end = (90, 90, 90),
                     alt_start = (0, 0, 0), alt_end = (90, 90, 90)\<rparr> False 11)
                 [65, 65, 65, 65, 65, 65, 65, 65, 65, 65, 65] @ reset_seq)
   \<and> gradient_colors \<lparr>color_start = (0, 0, 0), color_end = (90, 90, 90),
                     alt_start = (0, 0, 0), alt_end = (90, 90, 90)\<rparr> False 11 ! 7
       = (62, 62, 62)"
proof -
  let ?L = "[65, 65, 65, 65, 65, 65, 65, 65, 65, 65, 65] :: nat list"
  have v: "valid_color (0, 0, 0)" "valid_color (90, 90, 90)"
    by (simp_all add: valid_color_def)
  have l: "length ?L = 11" and n: "?L \<noteq> []"
    by simp_all
  have p: "position_color (0, 0, 0) (90, 90, 90) 11 7 = Some (62, 62, 62)"
    using position_color_valid(1) [OF v, of 7 11] by (simp add: float_color_0_90)
  note g = gradient_text_value [OF valid_ui_0_90 n, of False, unfolded l]
  have c: "gradient_colors \<lparr>color_start = (0, 0, 0), color_end = (90, 90, 90),
                     alt_start = (0, 0, 0), alt_end = (90, 90, 90)\<rparr> False 11 ! 7
       = (62, 62, 62)"
    by (simp add: gradient_colors_nth float_color_0_90)
  show ?thesis
    using p exact_color_0_90 g c by (intro conjI)
qed

text \<open>
  Claim C4, amended. With colours from 0 to 255, the colour emitted at position \<open>i\<close> of a
  text of \<open>n\<close> characters is \<open>float_color\<close>: the ratio is \<open>1 / 2\<close> when \<open>n = 1\<close> and the float
  nearest to \<open>i / (n - 1)\<close> otherwise, and each channel is the integer part of the float
  \<open>start + (end - start) * t\<close>, the product and the sum each rounded to the nearest float.
  Every channel is again from 0 to 255, so truncation toward zero and floor agree. For
  \<open>n = 1\<close> nothing is rounded and the channel is the floor of the exact value. The text
  \<open>X\<close> between (10, 20, 30) and (90, 80, 70) is coloured (50, 50, 50).
\<close>

theorem gradient_text_channels:
  "(valid_ui self \<and> i < length line \<longrightarrow>
      (\<exists>cols. gradient_text self line use_alt = Some (colored cols line @ reset_seq)
         \<and> length cols = length line
         \<and> cols ! i = float_color (if use_alt then alt_start self else color_start self)
                        (if use_alt then alt_end self else color_end self) (length line) i
         \<and> valid_color (cols ! i))
      \<and> (length line = 1 \<longrightarrow>
           float_color (if use_alt then alt_start self else color_start self)
             (if use_alt then alt_end self else color_end self) (length line) i
           = exact_color (if use_alt then alt_start self else color_start self)
               (if use_alt then alt_end self else color_end self) (length line) i))
   \<and> float_ratio 1 i = 1 / 2
   \<and> gradient_text \<lparr>color_start = (10, 20, 30), color_end = (90, 80, 70),
                     alt_start = (10, 20, 30), alt_end = (90, 80, 70)\<rparr> [88] False
       = Some (color_set 50 50 50 @ [88] @ reset_seq)"
proof -
  let ?sc = "if use_alt then alt_start self else color_start self"
  let ?ec = "if use_alt then alt_end self else color_end self"
  let ?X = "\<lparr>color_start = (10, 20, 30), color_end = (90, 80, 70),
             alt_start = (10, 20, 30), alt_end = (90, 80, 70)\<rparr>"
  have general: "\<exists>cols. gradient_text self line use_alt = Some (colored cols line @ reset_seq)
         \<and> length cols = length line
         \<and> cols ! i = float_color ?sc ?ec (length line) i
         \<and> valid_color (cols ! i)"
    if v: "valid_ui self" and i: "i < length line"
  proof -
    have n: "line \<noteq> []" using i by auto
    have c: "valid_color ?sc" "valid_color ?ec"
      using v by (simp_all add: valid_ui_def)
    have "valid_color (float_color ?sc ?ec (length line) i)"
      using c i by (rule position_color_valid(2))
    then show ?thesis
      using gradient_text_value [OF v n, of use_alt] gradient_colors_valid(1) [OF v]
        gradient_colors_nth [OF i, of self use_alt]
      by (intro exI [of _ "gradient_colors self use_alt (length line)"]) simp
  qed
  have single: "float_color ?sc ?ec (length line) i = exact_color ?sc ?ec (length line) i"
    if v: "valid_ui self" and l: "length line = 1"
  proof -
    have c: "valid_color ?sc" "valid_color ?ec"
      using v by (simp_all add: valid_ui_def)
    show ?thesis
      unfolding l using c by (rule float_color_single)
  qed
  have "float_color (10, 20, 30) (90, 80, 70) 1 0 = exact_color (10, 20, 30) (90, 80, 70) 1 0"
    by (rule float_color_single) (simp_all add: valid_color_def)
  then have fx: "float_color (10, 20, 30) (90, 80, 70) 1 0 = (50, 50, 50)"
    by (simp only: exact_color_X)
  have "[0..<1] = [0 :: nat]" by simp
  then have gc: "gradient_colors ?X False 1 = [(50, 50, 50)]"
    by (simp only: gradient_colors_def fx list.map if_False MoonUI.simps)
  have l1: "length [88 :: nat] = 1" and n1: "[88 :: nat] \<noteq> []" by simp_all
  have x: "gradient_text ?X [88] False = Some (color_set 50 50 50 @ [88] @ reset_seq)"
    using gradient_text_value [OF valid_ui_X n1, of False, unfolded l1 gc] by simp
  show ?thesis
    using general single x by (simp add: float_ratio_def)
qed

theorem gradient_text_channels_witness:
  "(valid_ui MoonUI_init \<and> (0 :: nat) < length [88 :: nat])
   \<and> length [88 :: nat] = 1
   \<and> (\<exists>cols. gradient_text MoonUI_init [88] False = Some (colored cols [88] @ reset_seq)
         \<and> length cols = length [88 :: nat]
         \<and> cols ! 0 = float_color (if False then alt_start MoonUI_init else color_start MoonUI_init)
                        (if False then alt_end MoonUI_init else color_end MoonUI_init)
                        (length [88 :: nat]) 0
         \<and> valid_color (cols ! 0))
   \<and> float_color (if False then alt_start MoonUI_init else color_start MoonUI_init)
         (if False then alt_end MoonUI_init else color_end MoonUI_init) (length [88 :: nat]) 0
       = exact_color (if False then alt_start MoonUI_init else color_start MoonUI_init)
           (if False then alt_end MoonUI_init else color_end MoonUI_init) (length [88 :: nat]) 0"
proof -
  have h: "valid_ui MoonUI_init \<and> (0 :: nat) < length [88 :: nat]"
    using valid_ui_init by simp
  have l: "length [88 :: nat] = 1" by simp
  note t = gradient_text_channels [of MoonUI_init 0 "[88]" False, THEN conjunct1, THEN mp, OF h]
  note e = t [THEN conjunct1]
  note s = t [THEN conjunct2, THEN mp, OF l]
  from h l e s show ?thesis
    by (rule conjI [OF _ conjI [OF _ conjI]])
qed

section \<open>Boxes: claims C8, C5, C10 and C2\<close>

text \<open>
  Claim C8. With colours from 0 to 255, \<open>box_top\<close>, \<open>box_mid\<close> and \<open>box_bot\<close> return the
  gradient of the left corner, the fill character \<open>w - 2\<close> times and the right corner, with
  the corners U+250C and U+2510, U+251C and U+2524, U+2514 and U+2518 and the fill U+2500.
  A negative \<open>w - 2\<close> counts as zero, and then the line without its escape sequences is the two
  corners.
\<close>

theorem box_borders:
  assumes "valid_ui self"
  shows "box_top self w = gradient_text self ([9484] @ replicate (nat (max (w - 2) 0)) 9472 @ [9488]) False
     \<and> box_mid self w = gradient_text self ([9500] @ replicate (nat (max (w - 2) 0)) 9472 @ [9508]) False
     \<and> box_bot self w = gradient_text self ([9492] @ replicate (nat (max (w - 2) 0)) 9472 @ [9496]) False
     \<and> map_option strip_ansi (box_top self w)
         = Some ([9484] @ replicate (nat (max (w - 2) 0)) 9472 @ [9488])
     \<and> map_option strip_ansi (box_mid self w)
         = Some ([9500] @ replicate (nat (max (w - 2) 0)) 9472 @ [9508])
     \<and> map_option strip_ansi (box_bot self w)
         = Some ([9492] @ replicate (nat (max (w - 2) 0)) 9472 @ [9496])
     \<and> (w - 2 < 0 \<longrightarrow>
          map_option strip_ansi (box_top self w) = Some [9484, 9488]
          \<and> map_option strip_ansi (box_mid self w) = Some [9500, 9508]
          \<and> map_option strip_ansi (box_bot self w) = Some [9492, 9496])"
  using gradient_text_strip [OF assms, of _ False]
  by (simp add: box_top_def box_mid_def box_bot_def box_line_fill)

theorem box_borders_witness:
  "valid_ui MoonUI_init \<and> (1 :: int) - 2 < 0
   \<and> map_option strip_ansi (box_top MoonUI_init 1) = Some [9484, 9488]
   \<and> map_option strip_ansi (box_mid MoonUI_init 1) = Some [9500, 9508]
   \<and> map_option strip_ansi (box_bot MoonUI_init 1) = Some [9492, 9496]
   \<and> map_option strip_ansi (box_top MoonUI_init 5) = Some [9484, 9472, 9472, 9472, 9488]"
proof -
  have "replicate (nat (max (5 - 2) 0)) (9472 :: nat) = [9472, 9472, 9472]"
    by (simp add: numeral_3_eq_3)
  note r = this
  note b1 = box_borders [OF valid_ui_init, of 1, THEN conjunct2, THEN conjunct2, THEN conjunct2]
  note b5 = box_borders [OF valid_ui_init, of 5, THEN conjunct2, THEN conjunct2, THEN conjunct2]
  show ?thesis
    using b1 b5 valid_ui_init r by (simp del: map_option_eq_Some)
qed

text \<open>
  Claim C5. With colours from 0 to 255, \<open>box_row\<close> with the alignment \<open>center\<close> computes
  \<open>pad_left = (inner - len(clean)) div 2\<close> and \<open>pad_right = inner - len(clean) - pad_left\<close>
  from \<open>inner = w - 2\<close> and the stripped text, and returns the gradient of the bar U+2502,
  \<open>pad_left\<close> spaces, the stripped text, \<open>pad_right\<close> spaces and the bar, a negative padding
  counting as zero; neither is negative when the stripped text fits into \<open>inner\<close>. For
  \<open>hi\<close> and the width 10 the line without its escape sequences is the bar, three spaces,
  \<open>hi\<close>, three spaces and the bar: 10 characters.
\<close>

theorem box_row_center_padding:
  assumes "valid_ui self"
  shows "(let clean = strip_ansi t;
              inner = w - 2;
              pad_left = (inner - int (length clean)) div 2;
              pad_right = inner - int (length clean) - pad_left;
              full_line = [9474] @ replicate (nat (max pad_left 0)) SPACE @ clean
                            @ replicate (nat (max pad_right 0)) SPACE @ [9474]
          in box_row self t w ''center'' = gradient_text self full_line False
             \<and> map_option strip_ansi (box_row self t w ''center'') = Some full_line
             \<and> (int (length clean) \<le> inner \<longrightarrow> 0 \<le> pad_left \<and> 0 \<le> pad_right))
     \<and> map_option strip_ansi (box_row self [104, 105] 10 ''center'')
         = Some [9474, SPACE, SPACE, SPACE, 104, 105, SPACE, SPACE, SPACE, 9474]
     \<and> visible_width (box_row self [104, 105] 10 ''center'') = Some 10"
proof -
  have s: "strip_ansi [104, 105] = [104, 105]"
    by (rule strip_ansi_no_ESC) simp
  have c: "box_row self [104, 105] 10 ''center''
      = gradient_text self [9474, SPACE, SPACE, SPACE, 104, 105, SPACE, SPACE, SPACE, 9474] False"
    unfolding box_row_center s by (simp add: numeral_3_eq_3)
  have e: "map_option strip_ansi (box_row self [104, 105] 10 ''center'')
         = Some [9474, SPACE, SPACE, SPACE, 104, 105, SPACE, SPACE, SPACE, 9474]"
    unfolding c by (rule gradient_text_strip [OF assms])
  have v: "visible_width (box_row self [104, 105] 10 ''center'') = Some 10"
    unfolding c visible_width_gradient_text [OF assms] by simp
  have p: "int (length (strip_ansi t)) \<le> w - 2 \<longrightarrow>
      0 \<le> (w - 2 - int (length (strip_ansi t))) div 2
      \<and> 0 \<le> w - 2 - int (length (strip_ansi t)) - (w - 2 - int (length (strip_ansi t))) div 2"
    by presburger
  have g: "map_option strip_ansi (box_row self t w ''center'')
      = Some ([9474]
          @ replicate (nat (max ((w - 2 - int (length (strip_ansi t))) div 2) 0)) SPACE
          @ strip_ansi t
          @ replicate (nat (max (w - 2 - int (length (strip_ansi t))
              - (w - 2 - int (length (strip_ansi t))) div 2) 0)) SPACE
          @ [9474])"
    unfolding box_row_center by (rule gradient_text_strip [OF assms])
  show ?thesis
    unfolding Let_def using box_row_center [of self t w] g p e v by (intro conjI)
qed

theorem box_row_center_padding_witness:
  "valid_ui MoonUI_init
   \<and> int (length (strip_ansi [104, 105])) \<le> 10 - 2
   \<and> (0 :: int) \<le> (10 - 2 - int (length (strip_ansi [104, 105]))) div 2
   \<and> map_option strip_ansi (box_row MoonUI_init [104, 105] 10 ''center'')
       = Some [9474, SPACE, SPACE, SPACE, 104, 105, SPACE, SPACE, SPACE, 9474]
   \<and> visible_width (box_row MoonUI_init [104, 105] 10 ''center'') = Some 10"
proof -
  have s: "strip_ansi [104, 105] = [104, 105]"
    by (rule strip_ansi_no_ESC) simp
  have h: "int (length (strip_ansi [104, 105])) \<le> 10 - 2"
    by (simp only: s) simp
  note t = box_row_center_padding [OF valid_ui_init, of "[104, 105]" 10, unfolded Let_def]
  note p = t [THEN conjunct1, THEN conjunct2, THEN conjunct2, THEN mp, OF h, THEN conjunct1]
  note e = t [THEN conjunct2]
  show ?thesis
    using valid_ui_init h p e [THEN conjunct1] e [THEN conjunct2] by (intro conjI)
qed

text \<open>
  Claim C10. With colours from 0 to 255, \<open>box_row\<close> with any alignment other than the
  string \<open>center\<close> returns what it returns for \<open>left\<close>: the gradient of the bar, one space,
  the stripped text, \<open>inner - len(clean) - 1\<close> spaces (none when that is negative) and the
  bar. It returns a line for every such alignment: none is rejected.
\<close>

theorem box_row_other_alignment:
  assumes "valid_ui self" and "align \<noteq> ''center''"
  shows "box_row self t w align = box_row self t w ''left''
     \<and> (let clean = strip_ansi t;
              inner = w - 2;
              pad_left = max 1 0;
              pad_right = max (inner - int (length clean) - 1) 0;
              full_line = [9474] @ replicate (nat pad_left) SPACE @ clean
                            @ replicate (nat pad_right) SPACE @ [9474]
          in box_row self t w align = gradient_text self full_line False
             \<and> map_option strip_ansi (box_row self t w align) = Some full_line)"
proof -
  have l: "''left'' \<noteq> ''center''" by simp
  have "box_row self t w align = box_row self t w ''left''"
    by (simp only: box_row_left [OF assms(2)] box_row_left [OF l])
  moreover have "map_option strip_ansi (box_row self t w align)
      = Some ([9474] @ replicate (nat (max 1 0)) SPACE @ strip_ansi t
          @ replicate (nat (max (w - 2 - int (length (strip_ansi t)) - 1) 0)) SPACE
          @ [9474])"
    unfolding box_row_left [OF assms(2)] by (rule gradient_text_strip [OF assms(1)])
  ultimately show ?thesis
    unfolding Let_def using box_row_left [OF assms(2), of self t w] by (intro conjI)
qed

theorem box_row_other_alignment_witness:
  "valid_ui MoonUI_init \<and> ''Left'' \<noteq> ''center''
   \<and> box_row MoonUI_init [104, 105] 10 ''Left'' = box_row MoonUI_init [104, 105] 10 ''left''
   \<and> map_option strip_ansi (box_row MoonUI_init [104, 105] 10 ''Left'')
       = Some [9474, SPACE, 104, 105, SPACE, SPACE, SPACE, SPACE, SPACE, 9474]"
proof -
  have a: "''Left'' \<noteq> ''center''" by simp
  have s: "strip_ansi [104, 105] = [104, 105]"
    by (rule strip_ansi_no_ESC) simp
  have r: "replicate (nat (max (10 - 2 - int (length [104 :: nat, 105]) - 1) 0)) SPACE
      = [SPACE, SPACE, SPACE, SPACE, SPACE]"
    "replicate (nat (max 1 0)) SPACE = [SPACE]"
    by (simp_all add: eval_nat_numeral)
  note t = box_row_other_alignment [OF valid_ui_init a, of "[104, 105]" 10, unfolded Let_def s r]
  show ?thesis
    using valid_ui_init a t [THEN conjunct1] t [THEN conjunct2, THEN conjunct2]
    by simp
qed

text \<open>
  Claim C2, as stated: every line has exactly \<open>w\<close> characters once its escape sequences are
  removed, whenever the stripped content is at most \<open>w - 2\<close> long. With the alignment
  \<open>left\<close> the content \<open>ab\<close> fills the inner width of a box of width 4, the left padding is
  one space all the same, and the line has 5 characters.
\<close>

theorem box_width_left_counterexample:
  "int (length (strip_ansi [97, 98])) \<le> 4 - 2
   \<and> map_option strip_ansi (box_row MoonUI_init [97, 98] 4 ''left'')
       = Some [9474, SPACE, 97, 98, 9474]
   \<and> visible_width (box_row MoonUI_init [97, 98] 4 ''left'') = Some 5"
proof -
  have a: "''left'' \<noteq> ''center''" by simp
  have s: "strip_ansi [97, 98] = [97, 98]"
    by (rule strip_ansi_no_ESC) simp
  have c: "box_row MoonUI_init [97, 98] 4 ''left''
      = gradient_text MoonUI_init [9474, SPACE, 97, 98, 9474] False"
    unfolding box_row_left [OF a] s by simp
  have "map_option strip_ansi (box_row MoonUI_init [97, 98] 4 ''left'')
       = Some [9474, SPACE, 97, 98, 9474]"
    unfolding c by (rule gradient_text_strip [OF valid_ui_init])
  moreover have "visible_width (box_row MoonUI_init [97, 98] 4 ''left'') = Some 5"
    unfolding c visible_width_gradient_text [OF valid_ui_init] by simp
  moreover have "int (length (strip_ansi [97, 98])) \<le> 4 - 2"
    by (simp only: s) simp
  ultimately show ?thesis
    by (intro conjI)
qed

text \<open>
  Claim C2, amended. With colours from 0 to 255, the line without its escape sequences has
  exactly \<open>w\<close> characters for \<open>box_top\<close>, \<open>box_mid\<close>, \<open>box_bot\<close> and \<open>box_empty\<close> when
  \<open>w \<ge> 2\<close>, for \<open>box_row\<close> with the alignment \<open>center\<close> when the stripped content is at most
  \<open>w - 2\<close> long, and for \<open>box_row\<close> with any other alignment when the stripped content is at
  most \<open>w - 3\<close> long.
\<close>

theorem box_visible_width:
  assumes "valid_ui self"
  shows "(2 \<le> w \<longrightarrow>
            visible_width (box_top self w) = Some w
            \<and> visible_width (box_mid self w) = Some w
            \<and> visible_width (box_bot self w) = Some w
            \<and> visible_width (box_empty self w) = Some w)
     \<and> (int (length (strip_ansi t)) \<le> w - 2 \<longrightarrow>
            visible_width (box_row self t w ''center'') = Some w)
     \<and> (align \<noteq> ''center'' \<and> int (length (strip_ansi t)) \<le> w - 3 \<longrightarrow>
            visible_width (box_row self t w align) = Some w)"
proof -
  note v = visible_width_gradient_text [OF assms, of _ False]
  have e: "strip_ansi [] = []" by simp
  have "2 \<le> w \<Longrightarrow> visible_width (box_top self w) = Some w"
    "2 \<le> w \<Longrightarrow> visible_width (box_mid self w) = Some w"
    "2 \<le> w \<Longrightarrow> visible_width (box_bot self w) = Some w"
    by (simp_all add: box_top_def box_mid_def box_bot_def box_line_fill v)
  moreover have c: "visible_width (box_row self u w ''center'') = Some w"
    if "int (length (strip_ansi u)) \<le> w - 2" for u
  proof -
    let ?k = "w - 2 - int (length (strip_ansi u))"
    have "0 \<le> ?k div 2" "0 \<le> ?k - ?k div 2" using that by presburger+
    then show ?thesis
      by (simp add: box_row_center v)
  qed
  moreover have "2 \<le> w \<Longrightarrow> visible_width (box_empty self w) = Some w"
    using c [of "[]"] by (simp add: box_empty_def)
  moreover have "visible_width (box_row self t w align) = Some w"
    if "align \<noteq> ''center''" "int (length (strip_ansi t)) \<le> w - 3"
    using that by (simp add: box_row_left v)
  ultimately show ?thesis by blast
qed

theorem box_visible_width_witness:
  "valid_ui MoonUI_init \<and> (2 :: int) \<le> 4
   \<and> visible_width (box_top MoonUI_init 4) = Some 4
   \<and> visible_width (box_mid MoonUI_init 4) = Some 4
   \<and> visible_width (box_bot MoonUI_init 4) = Some 4
   \<and> visible_width (box_empty MoonUI_init 4) = Some 4
   \<and> int (length (strip_ansi [97, 98])) \<le> 4 - 2
   \<and> visible_width (box_row MoonUI_init [97, 98] 4 ''center'') = Some 4
   \<and> ''left'' \<noteq> ''center'' \<and> int (length (strip_ansi [97])) \<le> 4 - 3
   \<and> visible_width (box_row MoonUI_init [97] 4 ''left'') = Some 4"
proof -
  have s: "strip_ansi [97, 98] = [97, 98]" "strip_ansi [97] = [97]"
    by (rule strip_ansi_no_ESC, simp)+
  have h: "(2 :: int) \<le> 4" "int (length (strip_ansi [97, 98])) \<le> 4 - 2"
    "''left'' \<noteq> ''center'' \<and> int (length (strip_ansi [97])) \<le> 4 - 3"
    by (simp_all only: s) simp_all
  note a = box_visible_width [OF valid_ui_init, of 4 "[97, 98]" "''left''"]
  note b = box_visible_width [OF valid_ui_init, of 4 "[97]" "''left''"]
  note a1 = a [THEN conjunct1, THEN mp, OF h(1)]
  note a2 = a [THEN conjunct2, THEN conjunct1, THEN mp, OF h(2)]
  note b3 = b [THEN conjunct2, THEN conjunct2, THEN mp, OF h(3)]
  show ?thesis
    using valid_ui_init h a1 a2 b3 by blast
qed

section \<open>The terminal: claims C6 and C9\<close>

text \<open>
  Claim C6, as stated: \<open>centered_pad\<close> returns an integer, 10 for a box of width 60 in a
  terminal of width 80. It returns the padding itself, a string of 10 spaces.
\<close>

theorem centered_pad_int_counterexample:
  "centered_pad (Returns 80) 60
     = Returns (PyStr [SPACE, SPACE, SPACE, SPACE, SPACE, SPACE, SPACE, SPACE, SPACE, SPACE])
   \<and> centered_pad (Returns 80) 60 \<noteq> Returns (PyInt 10)"
  by (simp add: centered_pad_def get_term_width_def str_mul_single eval_nat_numeral)

text \<open>
  Claim C6, amended: \<open>centered_pad\<close> returns a string of
  \<open>max ((width - box_width) div 2) 0\<close> spaces, where \<open>width\<close> is the terminal width, or 80
  when the query fails; the string is empty when the terminal is narrower than the box.
\<close>

theorem centered_pad_spaces:
  "centered_pad (Returns tw) box_width
     = Returns (PyStr (replicate (nat (max ((tw - box_width) div 2) 0)) SPACE))
   \<and> centered_pad (Raises e) box_width
     = Returns (PyStr (replicate (nat (max ((80 - box_width) div 2) 0)) SPACE))
   \<and> (tw < box_width \<longrightarrow> centered_pad (Returns tw) box_width = Returns (PyStr []))"
  by (simp add: centered_pad_def get_term_width_def str_mul_single)

theorem centered_pad_spaces_witness:
  "(40 :: int) < 60 \<and> centered_pad (Returns 40) 60 = Returns (PyStr [])
   \<and> centered_pad (Raises OSError) 78 = Returns (PyStr [SPACE])"
  using centered_pad_spaces [of 40 60 OSError] centered_pad_spaces [of 40 78 OSError]
  by simp

text \<open>
  Claim C9. \<open>get_term_width\<close> returns 80 when the query of the terminal raises, the column
  count when it answers, and so returns a width for every outcome of the query.
\<close>

theorem get_term_width_never_raises:
  "get_term_width (Raises e) = Returns 80
   \<and> get_term_width (Returns columns) = Returns columns
   \<and> (\<exists>n. get_term_width query = Returns n)"
  by (cases query) (simp_all add: get_term_width_def)

end
